theory Spec2Isabelle
  imports Complex_Main
begin

section \<open>The windowed batcher of src/ingestor.py\<close>

text \<open>
  The class \<^verbatim>\<open>Ingestor\<close> owns an unbounded FIFO queue and a lifecycle flag. The two
  limits are class attributes that an instance may override (the tests assign
  \<^verbatim>\<open>ingestor.BATCH_TIME_LIMIT\<close>), so they are fields here. Time is a real number of
  seconds: what \<^verbatim>\<open>time.time()\<close> returns, without the rounding of floats.
\<close>

record 'a ingestor =
  queue :: "'a list"
  is_running :: bool
  BATCH_SIZE_LIMIT :: nat
  BATCH_TIME_LIMIT :: real

text \<open>\<^verbatim>\<open>__init__\<close>: an empty queue, not running, the class defaults 100 and 5.0.\<close>

definition Ingestor :: "'a ingestor" where
  "Ingestor = \<lparr>queue = [], is_running = False, BATCH_SIZE_LIMIT = 100, BATCH_TIME_LIMIT = 5\<rparr>"

text \<open>\<^verbatim>\<open>add_log\<close>: \<^verbatim>\<open>await self.queue.put(log)\<close> on an unbounded queue appends at the tail.\<close>

definition add_log :: "'a \<Rightarrow> ('a, 'm) ingestor_scheme \<Rightarrow> ('a, 'm) ingestor_scheme" where
  "add_log log' s = s\<lparr>queue := queue s @ [log']\<rparr>"

text \<open>
  The repository has no \<^verbatim>\<open>stop\<close> method: callers request a stop by the assignment
  \<^verbatim>\<open>ingestor.is_running = False\<close> (app.py, the tests).
\<close>

definition stop :: "('a, 'm) ingestor_scheme \<Rightarrow> ('a, 'm) ingestor_scheme" where
  "stop s = s\<lparr>is_running := False\<rparr>"

subsection \<open>The generator frame and its environment\<close>

text \<open>
  While \<^verbatim>\<open>process_stream\<close> runs, its frame holds the locals \<^verbatim>\<open>batch\<close> and
  \<^verbatim>\<open>last_flush_time\<close> beside the object. Two more fields describe the world the
  generator observes and are never written by its code: \<open>clock\<close> is what
  \<^verbatim>\<open>time.time()\<close> returns at this moment, and \<open>arrived\<close> is the history of all
  records put on the queue so far, in order.
\<close>

record 'a frame = "'a ingestor" +
  batch :: "'a list"
  last_flush_time :: real
  clock :: real
  arrived :: "'a list"

text \<open>
  The generator is a coroutine: other tasks run only while it is suspended, in the
  \<^verbatim>\<open>await\<close> on the queue or in a \<^verbatim>\<open>yield\<close>. What they can do to the state the
  generator reads is: put a record (\<^verbatim>\<open>add_log\<close>), request a stop, let time pass.
\<close>

datatype 'a env_action = AddLog 'a | Stop | Tick real

fun env_step :: "'a env_action \<Rightarrow> 'a frame \<Rightarrow> 'a frame" where
  "env_step (AddLog x) s = (add_log x s)\<lparr>arrived := arrived s @ [x]\<rparr>"
| "env_step Stop s = stop s"
| "env_step (Tick d) s = s\<lparr>clock := clock s + d\<rparr>"

definition suspended :: "'a env_action list \<Rightarrow> 'a frame \<Rightarrow> 'a frame" where
  "suspended acts s = fold env_step acts s"

text \<open>
  How \<^verbatim>\<open>asyncio.wait_for(self.queue.get(), timeout=...)\<close> ends: with a record, with
  \<^verbatim>\<open>asyncio.TimeoutError\<close>, with another exception of class \<^verbatim>\<open>Exception\<close>, or with
  an exception outside that class (\<^verbatim>\<open>asyncio.CancelledError\<close> when the consuming task
  is cancelled, \<^verbatim>\<open>KeyboardInterrupt\<close>: they derive from \<^verbatim>\<open>BaseException\<close> only).
\<close>

datatype wait_outcome = Ready | TimedOut | Faulted | Cancelled

text \<open>
  One loop iteration meets the environment in its wait and, when it yields a batch, in
  that yield (an iteration yields at most once, since a yield empties the batch).
\<close>

record 'a iter_env =
  wait_env :: "'a env_action list"
  outcome :: wait_outcome
  yield_env :: "'a env_action list"

text \<open>
  What the consumer receives is \<open>items\<close>. The trace also keeps which \<^verbatim>\<open>yield\<close>
  statement produced the batch (lines 61, 68, 87, 96) and the time since the last
  flush at that instant.
\<close>

datatype trigger = SizeTrigger | TimeoutTrigger | RecheckTrigger | DrainTrigger

record 'a emission =
  trigger :: trigger
  items :: "'a list"
  elapsed :: real

definition emit :: "trigger \<Rightarrow> 'a frame \<Rightarrow> 'a emission" where
  "emit tr s = \<lparr>trigger = tr, items = batch s, elapsed = clock s - last_flush_time s\<rparr>"

text \<open>
  The three statements after every yield in the loop: the generator is resumed,
  \<^verbatim>\<open>batch = []\<close>, \<^verbatim>\<open>last_flush_time = time.time()\<close>.
\<close>

definition flush :: "'a env_action list \<Rightarrow> 'a frame \<Rightarrow> 'a frame" where
  "flush acts s = (let s' = suspended acts s in s'\<lparr>batch := [], last_flush_time := clock s'\<rparr>)"

subsection \<open>The loop body\<close>

text \<open>Lines 34-35.\<close>

definition time_since_flush :: "'a frame \<Rightarrow> real" where
  "time_since_flush s = clock s - last_flush_time s"

definition time_remaining :: "'a frame \<Rightarrow> real" where
  "time_remaining s = max 0 (BATCH_TIME_LIMIT s - time_since_flush s)"

text \<open>Lines 45-55: the timeout handed to \<^verbatim>\<open>wait_for\<close>.\<close>

definition wait_timeout :: "'a frame \<Rightarrow> real" where
  "wait_timeout s = (if length (batch s) > 0 then time_remaining s else 1)"

text \<open>
  A wait that ends with \<^verbatim>\<open>TimeoutError\<close> has lasted at least its timeout. (That a
  wait ending with a record needs a record on the queue is part of \<open>loop_body\<close>.)
\<close>

definition timeout_honoured :: "'a iter_env \<Rightarrow> 'a frame \<Rightarrow> bool" where
  "timeout_honoured e s =
     (outcome e = TimedOut \<longrightarrow> wait_timeout s \<le> clock (suspended (wait_env e) s) - clock s)"

datatype flow = Continue | Break | Stuck | Raise

text \<open>Lines 86-92: the time re-check and the exit test that close every iteration.\<close>

definition recheck :: "'a env_action list \<Rightarrow> 'a emission list \<Rightarrow> 'a frame
    \<Rightarrow> flow \<times> 'a emission list \<times> 'a frame" where
  "recheck acts ems s =
     (let (ems', s') =
        (if length (batch s) > 0 \<and> clock s - last_flush_time s \<ge> BATCH_TIME_LIMIT s
         then (ems @ [emit RecheckTrigger s], flush acts s)
         else (ems, s))
      in (if \<not> is_running s' \<and> queue s' = [] then Break else Continue, ems', s'))"

text \<open>
  Lines 34-92. \<open>Stuck\<close> marks an environment that cannot happen: a wait that ends
  with a record although the queue is empty. \<open>Raise\<close> is the exception that neither
  \<^verbatim>\<open>except asyncio.TimeoutError\<close> (line 65) nor \<^verbatim>\<open>except Exception\<close> (line 80)
  catches: it leaves the loop and the generator at the \<^verbatim>\<open>await\<close>. The \<^verbatim>\<open>print\<close> of
  the fault branch only writes to standard output and is left out.
\<close>

definition loop_body :: "'a iter_env \<Rightarrow> 'a frame \<Rightarrow> flow \<times> 'a emission list \<times> 'a frame" where
  "loop_body e s =
     (let s1 = suspended (wait_env e) s in
      case outcome e of
        Ready \<Rightarrow>
          (case queue s1 of
             [] \<Rightarrow> (Stuck, [], s1)
           | log' # rest \<Rightarrow>
               let s2 = s1\<lparr>queue := rest, batch := batch s1 @ [log']\<rparr> in
               if length (batch s2) \<ge> BATCH_SIZE_LIMIT s2
               then recheck (yield_env e) [emit SizeTrigger s2] (flush (yield_env e) s2)
               else recheck (yield_env e) [] s2)
      | TimedOut \<Rightarrow>
          if length (batch s1) > 0
          then recheck (yield_env e) [emit TimeoutTrigger s1] (flush (yield_env e) s1)
          else recheck (yield_env e) [] s1
      | Faulted \<Rightarrow> recheck (yield_env e) [] s1
      | Cancelled \<Rightarrow> (Raise, [], s1))"

subsection \<open>The loop and the generator\<close>

datatype status = Terminated | Pending | Unrealisable | Raised

text \<open>
  Line 32 and the iterations: the schedule lists the environment of each iteration.
  The run is \<open>Terminated\<close> when the loop is left (by its test or by the
  \<^verbatim>\<open>break\<close> of line 92), \<open>Pending\<close> when the schedule is used up and the loop
  would go on, \<open>Unrealisable\<close> when an iteration is \<open>Stuck\<close>, and \<open>Raised\<close>
  when an exception leaves the generator: the consumer receives it, and the final flush
  is not reached.
\<close>

fun while_loop :: "'a iter_env list \<Rightarrow> 'a frame \<Rightarrow> status \<times> 'a emission list \<times> 'a frame" where
  "while_loop [] s = (if is_running s \<or> queue s \<noteq> [] then Pending else Terminated, [], s)"
| "while_loop (e # es) s =
     (if is_running s \<or> queue s \<noteq> [] then
        (case loop_body e s of
           (Continue, ems, s') \<Rightarrow>
             (case while_loop es s' of (r, ems', s'') \<Rightarrow> (r, ems @ ems', s''))
         | (Break, ems, s') \<Rightarrow> (Terminated, ems, s')
         | (Stuck, ems, s') \<Rightarrow> (Unrealisable, ems, s')
         | (Raise, ems, s') \<Rightarrow> (Raised, ems, s'))
      else (Terminated, [], s))"

text \<open>Lines 94-96: \<^verbatim>\<open>if batch: yield batch\<close>.\<close>

definition flush_remaining :: "'a frame \<Rightarrow> 'a emission list" where
  "flush_remaining s = (if batch s \<noteq> [] then [emit DrainTrigger s] else [])"

text \<open>The loop from a given frame, followed by the final flush.\<close>

definition run_from :: "'a iter_env list \<Rightarrow> 'a frame \<Rightarrow> status \<times> 'a emission list \<times> 'a frame" where
  "run_from es s =
     (case while_loop es s of
        (Terminated, ems, s') \<Rightarrow> (Terminated, ems @ flush_remaining s', s')
      | r \<Rightarrow> r)"

text \<open>Lines 28-30, at clock reading \<open>now\<close>.\<close>

definition start :: "real \<Rightarrow> 'a ingestor \<Rightarrow> 'a frame" where
  "start now self =
     \<lparr>queue = queue self, is_running = True,
      BATCH_SIZE_LIMIT = BATCH_SIZE_LIMIT self, BATCH_TIME_LIMIT = BATCH_TIME_LIMIT self,
      batch = [], last_flush_time = now, clock = now, arrived = queue self\<rparr>"

definition process_stream :: "'a iter_env list \<Rightarrow> real \<Rightarrow> 'a ingestor
    \<Rightarrow> status \<times> 'a emission list \<times> 'a frame" where
  "process_stream es now self = run_from es (start now self)"

text \<open>The parts of a run: the trace of yields, what the consumer receives, the last frame.\<close>

definition emissions :: "status \<times> 'a emission list \<times> 'a frame \<Rightarrow> 'a emission list" where
  "emissions r = fst (snd r)"

definition batches :: "status \<times> 'a emission list \<times> 'a frame \<Rightarrow> 'a list list" where
  "batches r = map items (emissions r)"

definition final :: "status \<times> 'a emission list \<times> 'a frame \<Rightarrow> 'a frame" where
  "final r = snd (snd r)"

subsection \<open>Measures of an environment\<close>

text \<open>The records put and the time passed by a list of environment actions.\<close>

fun puts :: "'a env_action list \<Rightarrow> 'a list" where
  "puts [] = []"
| "puts (AddLog x # acts) = x # puts acts"
| "puts (_ # acts) = puts acts"

fun duration :: "'a env_action list \<Rightarrow> real" where
  "duration [] = 0"
| "duration (Tick d # acts) = d + duration acts"
| "duration (_ # acts) = duration acts"

subsection \<open>The emission rule as the specification words it\<close>

text \<open>
  The specification's invariant: a batch is emitted if and only if
  \<^verbatim>\<open>len(buffer) >= maxBatchSize OR (now - lastFlushTime) >= maxWindowDuration AND len(buffer) > 0\<close>.
  This is that condition, on a buffer and the time since the last flush.
\<close>

definition flush_due :: "nat \<Rightarrow> real \<Rightarrow> 'a list \<Rightarrow> real \<Rightarrow> bool" where
  "flush_due maxBatchSize maxWindowDuration buffer since_flush =
     (length buffer \<ge> maxBatchSize \<or> (since_flush \<ge> maxWindowDuration \<and> length buffer > 0))"

text \<open>
  Where an iteration stands when its wait is over (lines 47-57): the buffer, with the
  record appended if the wait delivered one, and the time since the last flush.
\<close>

definition buffer_after_wait :: "'a iter_env \<Rightarrow> 'a frame \<Rightarrow> 'a list" where
  "buffer_after_wait e s =
     (let s1 = suspended (wait_env e) s in
      case outcome e of
        Ready \<Rightarrow> (case queue s1 of [] \<Rightarrow> batch s1 | log' # rest \<Rightarrow> batch s1 @ [log'])
      | _ \<Rightarrow> batch s1)"

definition elapsed_after_wait :: "'a iter_env \<Rightarrow> 'a frame \<Rightarrow> real" where
  "elapsed_after_wait e s =
     (let s1 = suspended (wait_env e) s in clock s1 - last_flush_time s1)"

subsection \<open>Properties of environments\<close>

text \<open>Every timed-out wait of the run of a schedule has lasted at least its timeout.\<close>

fun honoured :: "'a iter_env list \<Rightarrow> 'a frame \<Rightarrow> bool" where
  "honoured [] s = True"
| "honoured (e # es) s =
     (if is_running s \<or> queue s \<noteq> [] then
        timeout_honoured e s \<and>
        (case loop_body e s of (Continue, ems, s') \<Rightarrow> honoured es s' | _ \<Rightarrow> True)
      else True)"

text \<open>
  A buffer that neither trigger asks to flush: it is empty, or it is below the size limit
  and younger than the window.
\<close>

definition carried :: "'a frame \<Rightarrow> bool" where
  "carried s = (batch s = [] \<or>
     (length (batch s) < BATCH_SIZE_LIMIT s \<and> clock s - last_flush_time s < BATCH_TIME_LIMIT s))"


definition wait_time :: "'a iter_env list \<Rightarrow> real" where
  "wait_time es = sum_list (map (\<lambda>e. duration (wait_env e)) es)"

definition stop_in_wait :: "'a iter_env list \<Rightarrow> bool" where
  "stop_in_wait es = list_ex (\<lambda>e. Stop \<in> set (wait_env e)) es"

text \<open>The same environment with every stop request made \<open>n\<close> more times in a row.\<close>

fun restop :: "nat \<Rightarrow> 'a env_action list \<Rightarrow> 'a env_action list" where
  "restop n [] = []"
| "restop n (Stop # acts) = replicate (Suc n) Stop @ restop n acts"
| "restop n (a # acts) = a # restop n acts"

definition restop_env :: "nat \<Rightarrow> 'a iter_env \<Rightarrow> 'a iter_env" where
  "restop_env n e = e\<lparr>wait_env := restop n (wait_env e), yield_env := restop n (yield_env e)\<rparr>"

section \<open>Basic facts\<close>

lemmas eval_defs = process_stream_def run_from_def start_def loop_body_def recheck_def flush_def
  suspended_def emit_def flush_remaining_def stop_def add_log_def Ingestor_def emissions_def
  batches_def final_def


lemma suspended_Nil [simp]: "suspended [] s = s"
  by (simp add: suspended_def)

lemma suspended_Cons: "suspended (a # acts) s = suspended acts (env_step a s)"
  by (simp add: suspended_def)

lemma suspended_eq:
  "suspended acts s =
     s\<lparr>queue := queue s @ puts acts, is_running := is_running s \<and> Stop \<notin> set acts,
       clock := clock s + duration acts, arrived := arrived s @ puts acts\<rparr>"
proof (induction acts arbitrary: s)
  case Nil
  show ?case by simp
next
  case (Cons a acts)
  show ?case
    by (cases a) (simp_all add: suspended_Cons Cons.IH add_log_def stop_def)
qed

lemmas body_defs = loop_body_def recheck_def flush_def emit_def Let_def

lemma while_loop_rel:
  assumes refl: "\<And>s. R s [] s"
    and trans: "\<And>s ems s' ems' s''. R s ems s' \<Longrightarrow> R s' ems' s'' \<Longrightarrow> R s (ems @ ems') s''"
    and step: "\<And>e s fl ems s'. loop_body e s = (fl, ems, s') \<Longrightarrow> R s ems s'"
  shows "while_loop es s = (r, ems, s') \<Longrightarrow> R s ems s'"
proof (induction es arbitrary: s r ems s')
  case Nil
  then show ?case using refl by (auto split: if_splits)
next
  case (Cons e es)
  show ?case
  proof (cases "is_running s \<or> queue s \<noteq> []")
    case False
    with Cons.prems show ?thesis using refl by auto
  next
    case True
    obtain fl ems1 s1 where body: "loop_body e s = (fl, ems1, s1)"
      by (cases "loop_body e s") auto
    have r1: "R s ems1 s1" using step [OF body] .
    show ?thesis
    proof (cases fl)
      case Continue
      obtain r2 ems2 s2 where rest: "while_loop es s1 = (r2, ems2, s2)"
        by (cases "while_loop es s1") auto
      from Cons.prems True body Continue rest
      have "ems = ems1 @ ems2" "s' = s2" by auto
      with trans [OF r1 Cons.IH [OF rest]] show ?thesis by simp
    next
      case Break
      with Cons.prems True body have "ems = ems1" "s' = s1" by auto
      with r1 show ?thesis by simp
    next
      case Stuck
      with Cons.prems True body have "ems = ems1" "s' = s1" by auto
      with r1 show ?thesis by simp
    next
      case Raise
      with Cons.prems True body have "ems = ems1" "s' = s1" by auto
      with r1 show ?thesis by simp
    qed
  qed
qed

lemma while_loop_inv:
  assumes step: "\<And>e s fl ems s'. I s \<Longrightarrow> loop_body e s = (fl, ems, s') \<Longrightarrow>
      fl = Continue \<or> fl = Break \<Longrightarrow> I s'"
  shows "I s \<Longrightarrow> while_loop es s = (r, ems, s') \<Longrightarrow> r = Terminated \<or> r = Pending \<Longrightarrow> I s'"
proof (induction es arbitrary: s r ems s')
  case Nil
  then show ?case by (auto split: if_splits)
next
  case (Cons e es)
  show ?case
  proof (cases "is_running s \<or> queue s \<noteq> []")
    case False
    with Cons.prems show ?thesis by auto
  next
    case True
    obtain fl ems1 s1 where body: "loop_body e s = (fl, ems1, s1)"
      by (cases "loop_body e s") auto
    show ?thesis
    proof (cases fl)
      case Continue
      obtain r2 ems2 s2 where rest: "while_loop es s1 = (r2, ems2, s2)"
        by (cases "while_loop es s1") auto
      from Cons.prems True body Continue rest have eq: "r = r2" "s' = s2" by auto
      have "I s1" using step [OF Cons.prems(1) body] Continue by simp
      from Cons.IH [OF this rest] eq Cons.prems(3) show ?thesis by simp
    next
      case Break
      with Cons.prems True body have "s' = s1" by auto
      with step [OF Cons.prems(1) body] Break show ?thesis by simp
    next
      case Stuck
      with Cons.prems True body show ?thesis by auto
    next
      case Raise
      with Cons.prems True body show ?thesis by auto
    qed
  qed
qed

lemma run_from_split:
  assumes "run_from es s = (r, ems, s')"
  obtains ems0 where "while_loop es s = (r, ems0, s')"
    and "ems = ems0 @ (if r = Terminated then flush_remaining s' else [])"
proof -
  obtain r0 ems0 s0 where w: "while_loop es s = (r0, ems0, s0)"
    by (cases "while_loop es s") auto
  with assms have "r = r0" "s' = s0" "ems = ems0 @ (if r = Terminated then flush_remaining s' else [])"
    by (cases r0; simp add: run_from_def)+
  with w that show thesis by simp
qed

lemma while_loop_exit:
  "while_loop es s = (Terminated, ems, s') \<Longrightarrow> \<not> is_running s' \<and> queue s' = []"
proof (induction es arbitrary: s ems s')
  case Nil
  then show ?case by (auto split: if_splits)
next
  case (Cons e es)
  show ?case
  proof (cases "is_running s \<or> queue s \<noteq> []")
    case False
    with Cons.prems show ?thesis by auto
  next
    case True
    obtain fl ems1 s1 where body: "loop_body e s = (fl, ems1, s1)"
      by (cases "loop_body e s") auto
    show ?thesis
    proof (cases fl)
      case Continue
      obtain r2 ems2 s2 where rest: "while_loop es s1 = (r2, ems2, s2)"
        by (cases "while_loop es s1") auto
      with Cons.prems True body Continue have "r2 = Terminated" "s' = s2" by auto
      with Cons.IH rest show ?thesis by blast
    next
      case Break
      with Cons.prems True body have "s' = s1" by auto
      with body Break show ?thesis
        by (auto simp: body_defs suspended_eq split: wait_outcome.splits list.splits if_splits)
    next
      case Stuck
      with Cons.prems True body show ?thesis by auto
    next
      case Raise
      with Cons.prems True body show ?thesis by auto
    qed
  qed
qed

lemma while_loop_stop_buffered:
  assumes "queue s = []" "batch s \<noteq> []" "\<not> is_running s \<or> Stop \<in> set (wait_env e)"
    "puts (wait_env e) = []" "puts (yield_env e) = []"
    "outcome e = TimedOut \<or> outcome e = Faulted"
  shows "\<exists>ems s'. while_loop (e # es) s = (Terminated, ems, s') \<and>
     map items (ems @ flush_remaining s') = [batch s]"
proof (cases "is_running s")
  case False
  with assms(1,2) show ?thesis by (simp add: flush_remaining_def emit_def)
next
  case True
  with assms(3) have st: "Stop \<in> set (wait_env e)" by simp
  obtain fl ems s' where body: "loop_body e s = (fl, ems, s')"
    by (cases "loop_body e s") auto
  with assms st have "fl = Break \<and> map items (ems @ flush_remaining s') = [batch s]"
    by (cases "outcome e")
       (auto simp: body_defs suspended_eq flush_remaining_def split: if_splits)
  with body True show ?thesis by simp
qed

lemma while_loop_limits:
  assumes "while_loop es s = (r, ems, s')"
  shows "BATCH_SIZE_LIMIT s' = BATCH_SIZE_LIMIT s \<and> BATCH_TIME_LIMIT s' = BATCH_TIME_LIMIT s"
proof (rule while_loop_rel [where R = "\<lambda>s ems s'.
      BATCH_SIZE_LIMIT s' = BATCH_SIZE_LIMIT s \<and> BATCH_TIME_LIMIT s' = BATCH_TIME_LIMIT s",
      OF _ _ _ assms], goal_cases)
  case (1 s)
  show ?case by simp
next
  case (2 s ems s' ems' s'')
  then show ?case by simp
next
  case (3 e s fl ems s')
  then show ?case
    by (auto simp: body_defs suspended_eq split: wait_outcome.splits list.splits if_splits)
qed



lemma loop_body_bounded:
  assumes "loop_body e s = (fl, ems, s')" "0 < BATCH_SIZE_LIMIT s" "length (batch s) < BATCH_SIZE_LIMIT s"
  shows "BATCH_SIZE_LIMIT s' = BATCH_SIZE_LIMIT s \<and> length (batch s') < BATCH_SIZE_LIMIT s \<and>
    (\<forall>em\<in>set ems. length (items em) \<le> BATCH_SIZE_LIMIT s \<and>
        (length (items em) = BATCH_SIZE_LIMIT s \<longleftrightarrow> trigger em = SizeTrigger))"
  using assms
  by (auto simp: body_defs suspended_eq split: wait_outcome.splits list.splits if_splits)

lemma while_loop_bounded:
  assumes "while_loop es s = (r, ems, s')" "0 < BATCH_SIZE_LIMIT s" "length (batch s) < BATCH_SIZE_LIMIT s"
  shows "BATCH_SIZE_LIMIT s' = BATCH_SIZE_LIMIT s \<and> length (batch s') < BATCH_SIZE_LIMIT s \<and>
    (\<forall>em\<in>set ems. length (items em) \<le> BATCH_SIZE_LIMIT s \<and>
        (length (items em) = BATCH_SIZE_LIMIT s \<longleftrightarrow> trigger em = SizeTrigger))"
proof -
  let ?R = "\<lambda>s ems s'. 0 < BATCH_SIZE_LIMIT s \<and> length (batch s) < BATCH_SIZE_LIMIT s \<longrightarrow>
    BATCH_SIZE_LIMIT s' = BATCH_SIZE_LIMIT s \<and> length (batch s') < BATCH_SIZE_LIMIT s \<and>
    (\<forall>em\<in>set ems. length (items em) \<le> BATCH_SIZE_LIMIT s \<and>
        (length (items em) = BATCH_SIZE_LIMIT s \<longleftrightarrow> trigger em = SizeTrigger))"
  have "?R s ems s'"
  proof (rule while_loop_rel [where R = ?R, OF _ _ _ assms(1)], goal_cases)
    case (1 s)
    show ?case by simp
  next
    case (2 s ems s' ems' s'')
    then show ?case by auto
  next
    case (3 e s fl ems s')
    then show ?case using loop_body_bounded by blast
  qed
  with assms show ?thesis by blast
qed

lemma loop_body_fifo:
  assumes "loop_body e s = (fl, ems, s')" "ys @ batch s @ queue s = arrived s"
  shows "ys @ concat (map items ems) @ batch s' @ queue s' = arrived s'"
  using assms(1)
  by (auto simp: body_defs suspended_eq assms(2) [symmetric]
      split: wait_outcome.splits list.splits if_splits)

lemma while_loop_fifo:
  assumes "while_loop es s = (r, ems, s')" "ys @ batch s @ queue s = arrived s"
  shows "ys @ concat (map items ems) @ batch s' @ queue s' = arrived s'"
proof -
  let ?R = "\<lambda>s ems s'. \<forall>ys. ys @ batch s @ queue s = arrived s \<longrightarrow>
      ys @ concat (map items ems) @ batch s' @ queue s' = arrived s'"
  have "?R s ems s'"
  proof (rule while_loop_rel [where R = ?R, OF _ _ _ assms(1)], goal_cases)
    case (1 s)
    show ?case by simp
  next
    case (2 s ems s' ems' s'')
    show ?case
    proof (intro allI impI)
      fix ys assume "ys @ batch s @ queue s = arrived s"
      with 2(1) have "(ys @ concat (map items ems)) @ batch s' @ queue s' = arrived s'" by simp
      with 2(2) have "(ys @ concat (map items ems)) @ concat (map items ems') @ batch s'' @ queue s'' = arrived s''"
        by blast
      then show "ys @ concat (map items (ems @ ems')) @ batch s'' @ queue s'' = arrived s''" by simp
    qed
  next
    case (3 e s fl ems s')
    then show ?case using loop_body_fifo by blast
  qed
  with assms(2) show ?thesis by blast
qed

lemma process_stream_fifo:
  assumes "process_stream es now self = (r, ems, s')"
  shows "if r = Terminated then concat (map items ems) = arrived s'
         else concat (map items ems) @ batch s' @ queue s' = arrived s'"
proof -
  from assms obtain ems0 where w: "while_loop es (start now self) = (r, ems0, s')"
    and e: "ems = ems0 @ (if r = Terminated then flush_remaining s' else [])"
    unfolding process_stream_def by (rule run_from_split)
  have "[] @ batch (start now self) @ queue (start now self) = arrived (start now self)"
    by (simp add: start_def)
  from while_loop_fifo [OF w this]
  have inv: "concat (map items ems0) @ batch s' @ queue s' = arrived s'" by simp
  show ?thesis
  proof (cases "r = Terminated")
    case True
    with w have "queue s' = []" using while_loop_exit by blast
    with inv e True show ?thesis by (auto simp: flush_remaining_def emit_def)
  next
    case False
    with inv e show ?thesis by simp
  qed
qed

section \<open>When a batch is emitted\<close>

lemma loop_body_due:
  assumes "loop_body e s = (fl, ems, s')" "timeout_honoured e s"
  shows "BATCH_SIZE_LIMIT s' = BATCH_SIZE_LIMIT s \<and> BATCH_TIME_LIMIT s' = BATCH_TIME_LIMIT s \<and>
    (\<forall>em\<in>set ems. trigger em \<noteq> DrainTrigger \<and>
       flush_due (BATCH_SIZE_LIMIT s) (BATCH_TIME_LIMIT s) (items em) (elapsed em))"
  using assms
  by (auto simp: body_defs suspended_eq flush_due_def timeout_honoured_def wait_timeout_def
        time_remaining_def time_since_flush_def
      split: wait_outcome.splits list.splits if_splits)

lemma loop_body_carried:
  assumes "loop_body e s = (fl, ems, s')" "fl = Continue \<or> fl = Break" "carried s"
  shows "carried s'"
  using assms
  by (auto simp: body_defs suspended_eq carried_def
      split: wait_outcome.splits list.splits if_splits)

text \<open>A buffer that is due once the wait is over is yielded whole in that iteration.\<close>

lemma loop_body_due_emitted:
  assumes "loop_body e s = (fl, ems, s')" "fl = Continue \<or> fl = Break"
    "length (batch s) < BATCH_SIZE_LIMIT s"
    "flush_due (BATCH_SIZE_LIMIT s) (BATCH_TIME_LIMIT s)
       (buffer_after_wait e s) (elapsed_after_wait e s)"
  shows "map items ems = [buffer_after_wait e s] \<and> batch s' = []"
  using assms
  by (auto simp: body_defs suspended_eq flush_due_def buffer_after_wait_def
        elapsed_after_wait_def
      split: wait_outcome.splits list.splits if_splits)

lemma while_loop_due:
  "honoured es s \<Longrightarrow> while_loop es s = (r, ems, s') \<Longrightarrow>
    (\<forall>em\<in>set ems. trigger em \<noteq> DrainTrigger \<and>
       flush_due (BATCH_SIZE_LIMIT s) (BATCH_TIME_LIMIT s) (items em) (elapsed em))"
proof (induction es arbitrary: s r ems s')
  case Nil
  then show ?case by (auto split: if_splits)
next
  case (Cons e es)
  show ?case
  proof (cases "is_running s \<or> queue s \<noteq> []")
    case False
    with Cons.prems show ?thesis by auto
  next
    case True
    obtain fl ems1 s1 where body: "loop_body e s = (fl, ems1, s1)"
      by (cases "loop_body e s") auto
    from Cons.prems(1) True have h: "timeout_honoured e s" by simp
    note d = loop_body_due [OF body h]
    show ?thesis
    proof (cases "fl = Continue")
      case True
      obtain r2 ems2 s2 where rest: "while_loop es s1 = (r2, ems2, s2)"
        by (cases "while_loop es s1") auto
      from Cons.prems \<open>is_running s \<or> queue s \<noteq> []\<close> body True rest
      have eq: "ems = ems1 @ ems2" by auto
      from Cons.prems(1) \<open>is_running s \<or> queue s \<noteq> []\<close> body True
      have "honoured es s1" by simp
      from Cons.IH [OF this rest] d eq show ?thesis by auto
    next
      case False
      with Cons.prems True body have "ems = ems1" by (cases fl) auto
      with d show ?thesis by simp
    qed
  qed
qed

text \<open>
  C1, as the code has it. In an environment whose timed-out waits lasted at least their
  timeout, every batch yielded inside the loop satisfies the specification's condition
  (\<open>BATCH_SIZE_LIMIT\<close> reached, or \<open>BATCH_TIME_LIMIT\<close> elapsed on a non-empty
  buffer). The final flush is outside the rule: it yields the residual buffer whenever it
  is non-empty, and for that buffer the condition is false. Conversely, with a size limit
  of at least one: in every iteration a run reaches, a buffer for which the condition
  holds once the wait is over (and the record, if any, appended) is yielded whole in
  that iteration; so the buffer carried into the next iteration never satisfies the
  condition. And a run that terminates with a non-empty buffer has yielded that buffer
  last, by the final flush.
\<close>

theorem emission_rule:
  "(honoured es (start now self) \<longrightarrow>
      (\<forall>em\<in>set (emissions (process_stream es now self)).
         if trigger em = DrainTrigger
         then items em \<noteq> [] \<and>
           \<not> flush_due (BATCH_SIZE_LIMIT self) (BATCH_TIME_LIMIT self) (items em) (elapsed em)
         else flush_due (BATCH_SIZE_LIMIT self) (BATCH_TIME_LIMIT self) (items em) (elapsed em))) \<and>
   (0 < BATCH_SIZE_LIMIT self \<and> fst (process_stream pre now self) = Pending \<and>
    (fst (loop_body e (final (process_stream pre now self))) = Continue \<or>
     fst (loop_body e (final (process_stream pre now self))) = Break) \<and>
    flush_due (BATCH_SIZE_LIMIT self) (BATCH_TIME_LIMIT self)
      (buffer_after_wait e (final (process_stream pre now self)))
      (elapsed_after_wait e (final (process_stream pre now self))) \<longrightarrow>
      map items (fst (snd (loop_body e (final (process_stream pre now self)))))
        = [buffer_after_wait e (final (process_stream pre now self))]) \<and>
   (0 < BATCH_SIZE_LIMIT self \<and> fst (process_stream es now self) = Pending \<longrightarrow>
      \<not> flush_due (BATCH_SIZE_LIMIT self) (BATCH_TIME_LIMIT self)
          (batch (final (process_stream es now self)))
          (clock (final (process_stream es now self))
            - last_flush_time (final (process_stream es now self)))) \<and>
   (fst (process_stream es now self) = Terminated \<and> batch (final (process_stream es now self)) \<noteq> [] \<longrightarrow>
      emissions (process_stream es now self) \<noteq> [] \<and>
      trigger (last (emissions (process_stream es now self))) = DrainTrigger \<and>
      items (last (emissions (process_stream es now self))) = batch (final (process_stream es now self)))"
proof -
  obtain r ems s' where run: "process_stream es now self = (r, ems, s')"
    by (cases "process_stream es now self") auto
  then obtain ems0 where w: "while_loop es (start now self) = (r, ems0, s')"
    and e: "ems = ems0 @ (if r = Terminated then flush_remaining s' else [])"
    unfolding process_stream_def by (rule run_from_split)
  from while_loop_limits [OF w]
  have lim: "BATCH_SIZE_LIMIT s' = BATCH_SIZE_LIMIT self" "BATCH_TIME_LIMIT s' = BATCH_TIME_LIMIT self"
    by (simp_all add: start_def)
  have c0: "carried (start now self)" by (simp add: carried_def start_def)
  have c: "carried s'" if "r = Terminated \<or> r = Pending"
    using while_loop_inv [where I = carried, OF loop_body_carried c0 w that] .
  have a: "\<forall>em\<in>set ems.
            if trigger em = DrainTrigger
            then items em \<noteq> [] \<and>
              \<not> flush_due (BATCH_SIZE_LIMIT self) (BATCH_TIME_LIMIT self) (items em) (elapsed em)
            else flush_due (BATCH_SIZE_LIMIT self) (BATCH_TIME_LIMIT self) (items em) (elapsed em)"
    if h: "honoured es (start now self)"
  proof -
    from while_loop_due [OF h w]
    have due: "\<forall>em\<in>set ems0. trigger em \<noteq> DrainTrigger \<and>
       flush_due (BATCH_SIZE_LIMIT self) (BATCH_TIME_LIMIT self) (items em) (elapsed em)"
      by (simp add: start_def)
    show ?thesis
    proof (cases "r = Terminated")
      case False
      with e due show ?thesis by auto
    next
      case True
      with c have "carried s'" by simp
      with e due True lim show ?thesis
        by (auto simp: flush_remaining_def emit_def carried_def flush_due_def)
    qed
  qed
  have b: "\<not> flush_due (BATCH_SIZE_LIMIT self) (BATCH_TIME_LIMIT self) (batch s')
      (clock s' - last_flush_time s')" if "0 < BATCH_SIZE_LIMIT self" "r = Pending"
    using c that lim by (auto simp: carried_def flush_due_def)
  have d: "ems \<noteq> [] \<and> trigger (last ems) = DrainTrigger \<and> items (last ems) = batch s'"
    if "r = Terminated" "batch s' \<noteq> []"
    using e that by (simp add: flush_remaining_def emit_def)
  have m: "map items (fst (snd (loop_body e (final (process_stream pre now self)))))
        = [buffer_after_wait e (final (process_stream pre now self))]"
    if pos: "0 < BATCH_SIZE_LIMIT self" and p: "fst (process_stream pre now self) = Pending"
      and fl: "fst (loop_body e (final (process_stream pre now self))) = Continue \<or>
        fst (loop_body e (final (process_stream pre now self))) = Break"
      and due: "flush_due (BATCH_SIZE_LIMIT self) (BATCH_TIME_LIMIT self)
        (buffer_after_wait e (final (process_stream pre now self)))
        (elapsed_after_wait e (final (process_stream pre now self)))"
  proof -
    obtain rp emsp sp where runp: "process_stream pre now self = (rp, emsp, sp)"
      by (cases "process_stream pre now self") auto
    then obtain ems1 where wp: "while_loop pre (start now self) = (rp, ems1, sp)"
      unfolding process_stream_def by (rule run_from_split)
    have sp: "final (process_stream pre now self) = sp" using runp by (simp add: final_def)
    from while_loop_limits [OF wp]
    have limp: "BATCH_SIZE_LIMIT sp = BATCH_SIZE_LIMIT self" "BATCH_TIME_LIMIT sp = BATCH_TIME_LIMIT self"
      by (simp_all add: start_def)
    have "0 < BATCH_SIZE_LIMIT (start now self)"
      "length (batch (start now self)) < BATCH_SIZE_LIMIT (start now self)"
      using pos by (simp_all add: start_def)
    from while_loop_bounded [OF wp this]
    have len: "length (batch sp) < BATCH_SIZE_LIMIT sp" using limp by (simp add: start_def)
    obtain fl' ems' s'' where body: "loop_body e sp = (fl', ems', s'')"
      by (cases "loop_body e sp") auto
    from fl body sp have fl': "fl' = Continue \<or> fl' = Break" by simp
    from due sp limp
    have "flush_due (BATCH_SIZE_LIMIT sp) (BATCH_TIME_LIMIT sp)
       (buffer_after_wait e sp) (elapsed_after_wait e sp)" by simp
    from loop_body_due_emitted [OF body fl' len this] body sp show ?thesis by simp
  qed
  from a b d m run show ?thesis by (simp add: emissions_def final_def)
qed

text \<open>
  The claim as stated fails at the final flush: one record, a stop, no time passed. The
  batch of one record is emitted below the size limit of 100 and before the window of 5.
\<close>

theorem emission_rule_counterexample:
  "emissions (process_stream
      [\<lparr>wait_env = [AddLog ''A'', Stop], outcome = Ready, yield_env = []\<rparr>] 0 Ingestor)
     = [\<lparr>trigger = DrainTrigger, items = [''A''], elapsed = 0\<rparr>] \<and>
   \<not> flush_due (BATCH_SIZE_LIMIT (Ingestor :: string ingestor))
       (BATCH_TIME_LIMIT (Ingestor :: string ingestor)) [''A''] 0"
  by (simp add: eval_defs flush_due_def)

theorem emission_rule_witness:
  "honoured [\<lparr>wait_env = [AddLog ''A''], outcome = Ready, yield_env = []\<rparr>,
             \<lparr>wait_env = [Tick 5], outcome = TimedOut, yield_env = []\<rparr>,
             \<lparr>wait_env = [AddLog ''B'', Stop], outcome = Ready, yield_env = []\<rparr>]
      (start 0 (Ingestor :: string ingestor)) \<and>
   process_stream
            [\<lparr>wait_env = [AddLog ''A''], outcome = Ready, yield_env = []\<rparr>,
             \<lparr>wait_env = [Tick 5], outcome = TimedOut, yield_env = []\<rparr>,
             \<lparr>wait_env = [AddLog ''B'', Stop], outcome = Ready, yield_env = []\<rparr>] 0 Ingestor
     = (Terminated,
        [\<lparr>trigger = TimeoutTrigger, items = [''A''], elapsed = 5\<rparr>,
         \<lparr>trigger = DrainTrigger, items = [''B''], elapsed = 0\<rparr>],
        \<lparr>queue = [], is_running = False, BATCH_SIZE_LIMIT = 100, BATCH_TIME_LIMIT = 5,
         batch = [''B''], last_flush_time = 5, clock = 5, arrived = [''A'', ''B'']\<rparr>) \<and>
   flush_due 100 5 [''A''] 5 \<and> \<not> flush_due 100 5 [''B''] 0 \<and>
   process_stream [\<lparr>wait_env = [AddLog ''A''], outcome = Ready, yield_env = []\<rparr>] 0 Ingestor
     = (Pending, [],
        \<lparr>queue = [], is_running = True, BATCH_SIZE_LIMIT = 100, BATCH_TIME_LIMIT = 5,
         batch = [''A''], last_flush_time = 0, clock = 0, arrived = [''A'']\<rparr>) \<and>
   \<not> flush_due 100 5 [''A''] 0 \<and>
   buffer_after_wait \<lparr>wait_env = [Tick 5], outcome = TimedOut, yield_env = []\<rparr>
        \<lparr>queue = [], is_running = True, BATCH_SIZE_LIMIT = 100, BATCH_TIME_LIMIT = 5,
         batch = [''A''], last_flush_time = 0, clock = 0, arrived = [''A'']\<rparr> = [''A''] \<and>
   elapsed_after_wait \<lparr>wait_env = [Tick 5], outcome = TimedOut, yield_env = []\<rparr>
        \<lparr>queue = [], is_running = True, BATCH_SIZE_LIMIT = 100, BATCH_TIME_LIMIT = 5,
         batch = [''A''], last_flush_time = 0, clock = 0, arrived = [''A'']\<rparr> = 5 \<and>
   loop_body \<lparr>wait_env = [Tick 5], outcome = TimedOut, yield_env = []\<rparr>
        \<lparr>queue = [], is_running = True, BATCH_SIZE_LIMIT = 100, BATCH_TIME_LIMIT = 5,
         batch = [''A''], last_flush_time = 0, clock = 0, arrived = [''A'']\<rparr>
     = (Continue, [\<lparr>trigger = TimeoutTrigger, items = [''A''], elapsed = 5\<rparr>],
        \<lparr>queue = [], is_running = True, BATCH_SIZE_LIMIT = 100, BATCH_TIME_LIMIT = 5,
         batch = [], last_flush_time = 5, clock = 5, arrived = [''A'']\<rparr>) \<and>
   process_stream [\<lparr>wait_env = [Tick 5], outcome = Faulted, yield_env = []\<rparr>] 0 Ingestor
     = (Pending, [],
        \<lparr>queue = [], is_running = True, BATCH_SIZE_LIMIT = 100, BATCH_TIME_LIMIT = 5,
         batch = [], last_flush_time = 0, clock = 5, arrived = []\<rparr>) \<and>
   flush_due 100 5
     (buffer_after_wait \<lparr>wait_env = [AddLog ''A''], outcome = Ready, yield_env = []\<rparr>
        \<lparr>queue = [], is_running = True, BATCH_SIZE_LIMIT = 100, BATCH_TIME_LIMIT = 5,
         batch = [], last_flush_time = 0, clock = 5, arrived = []\<rparr>)
     (elapsed_after_wait \<lparr>wait_env = [AddLog ''A''], outcome = Ready, yield_env = []\<rparr>
        \<lparr>queue = [], is_running = True, BATCH_SIZE_LIMIT = 100, BATCH_TIME_LIMIT = 5,
         batch = [], last_flush_time = 0, clock = 5, arrived = []\<rparr>) \<and>
   loop_body \<lparr>wait_env = [AddLog ''A''], outcome = Ready, yield_env = []\<rparr>
        \<lparr>queue = [], is_running = True, BATCH_SIZE_LIMIT = 100, BATCH_TIME_LIMIT = 5,
         batch = [], last_flush_time = 0, clock = 5, arrived = []\<rparr>
     = (Continue, [\<lparr>trigger = RecheckTrigger, items = [''A''], elapsed = 5\<rparr>],
        \<lparr>queue = [], is_running = True, BATCH_SIZE_LIMIT = 100, BATCH_TIME_LIMIT = 5,
         batch = [], last_flush_time = 5, clock = 5, arrived = [''A'']\<rparr>)"
  using emission_rule [where self = "Ingestor :: string ingestor" and now = 0
        and es = "[]"
        and pre = "[\<lparr>wait_env = [Tick 5], outcome = Faulted, yield_env = []\<rparr>]"
        and e = "\<lparr>wait_env = [AddLog ''A''], outcome = Ready, yield_env = []\<rparr>"]
    emission_rule [where self = "Ingestor :: string ingestor" and now = 0
        and es = "[\<lparr>wait_env = [AddLog ''A''], outcome = Ready, yield_env = []\<rparr>,
             \<lparr>wait_env = [Tick 5], outcome = TimedOut, yield_env = []\<rparr>,
             \<lparr>wait_env = [AddLog ''B'', Stop], outcome = Ready, yield_env = []\<rparr>]"
        and pre = "[\<lparr>wait_env = [AddLog ''A''], outcome = Ready, yield_env = []\<rparr>]"
        and e = "\<lparr>wait_env = [Tick 5], outcome = TimedOut, yield_env = []\<rparr>"]
    emission_rule [where self = "Ingestor :: string ingestor" and now = 0
        and es = "[\<lparr>wait_env = [AddLog ''A''], outcome = Ready, yield_env = []\<rparr>]"
        and pre = "[\<lparr>wait_env = [AddLog ''A''], outcome = Ready, yield_env = []\<rparr>]"
        and e = "\<lparr>wait_env = [Tick 5], outcome = TimedOut, yield_env = []\<rparr>"]
  by (simp add: eval_defs flush_due_def timeout_honoured_def wait_timeout_def
        time_remaining_def time_since_flush_def buffer_after_wait_def elapsed_after_wait_def)

section \<open>The size trigger: one full batch, then the rest\<close>

lemma wait_time_simps [simp]:
  "wait_time [] = 0" "wait_time (e # es) = duration (wait_env e) + wait_time es"
  "wait_time (es @ es') = wait_time es + wait_time es'"
  by (simp_all add: wait_time_def)


lemma stop_in_wait_simps [simp]:
  "stop_in_wait [] = False" "stop_in_wait (e # es) = (Stop \<in> set (wait_env e) \<or> stop_in_wait es)"
  "stop_in_wait (es @ es') = (stop_in_wait es \<or> stop_in_wait es')"
  by (simp_all add: stop_in_wait_def)















section \<open>No empty batches\<close>

lemma loop_body_nonempty:
  "loop_body e s = (fl, ems, s') \<Longrightarrow> \<forall>em\<in>set ems. items em \<noteq> []"
  by (auto simp: body_defs suspended_eq split: wait_outcome.splits list.splits if_splits)

lemma while_loop_nonempty:
  "while_loop es s = (r, ems, s') \<Longrightarrow> \<forall>em\<in>set ems. items em \<noteq> []"
  by (rule while_loop_rel [where R = "\<lambda>s ems s'. \<forall>em\<in>set ems. items em \<noteq> []"])
     (auto dest: loop_body_nonempty)

lemma run_from_nonempty:
  assumes "run_from es s = (r, ems, s')"
  shows "\<forall>em\<in>set ems. items em \<noteq> []"
proof -
  from assms obtain ems0 where w: "while_loop es s = (r, ems0, s')"
    and e: "ems = ems0 @ (if r = Terminated then flush_remaining s' else [])"
    by (rule run_from_split)
  from while_loop_nonempty [OF w] e show ?thesis
    by (auto simp: flush_remaining_def emit_def split: if_splits)
qed

text \<open>
  C3: no batch yielded by \<open>process_stream\<close> is empty, whichever statement yields it
  (size trigger, timeout, re-check or final flush), in every environment; and a wait
  that times out on an empty buffer yields nothing.
\<close>

theorem no_empty_batches:
  "(\<forall>em\<in>set (emissions (process_stream es now self)). items em \<noteq> []) \<and>
   (outcome e = TimedOut \<and> batch s = [] \<longrightarrow> fst (snd (loop_body e s)) = [])"
proof
  obtain r ems s' where run: "process_stream es now self = (r, ems, s')"
    by (cases "process_stream es now self") auto
  then have "\<forall>em\<in>set ems. items em \<noteq> []"
    unfolding process_stream_def by (rule run_from_nonempty)
  with run show "\<forall>em\<in>set (emissions (process_stream es now self)). items em \<noteq> []"
    by (simp add: emissions_def)
next
  show "outcome e = TimedOut \<and> batch s = [] \<longrightarrow> fst (snd (loop_body e s)) = []"
    by (simp add: body_defs suspended_eq)
qed

theorem no_empty_batches_witness:
  "emissions (process_stream
      [\<lparr>wait_env = [], outcome = TimedOut, yield_env = []\<rparr>,
       \<lparr>wait_env = [AddLog ''A'', AddLog ''B''], outcome = Ready, yield_env = []\<rparr>,
       \<lparr>wait_env = [], outcome = Ready, yield_env = []\<rparr>,
       \<lparr>wait_env = [Tick 5, Stop], outcome = TimedOut, yield_env = []\<rparr>] 0 Ingestor)
     = [\<lparr>trigger = TimeoutTrigger, items = [''A'', ''B''], elapsed = 5\<rparr>] \<and>
   items \<lparr>trigger = TimeoutTrigger, items = [''A'', ''B''], elapsed = 5\<rparr> \<noteq> [] \<and>
   outcome \<lparr>wait_env = [], outcome = TimedOut, yield_env = []\<rparr> = TimedOut \<and>
   batch (start 0 (Ingestor :: string ingestor)) = [] \<and>
   fst (snd (loop_body \<lparr>wait_env = [], outcome = TimedOut, yield_env = []\<rparr>
      (start 0 (Ingestor :: string ingestor)))) = []"
  using no_empty_batches [of
      "[\<lparr>wait_env = [], outcome = TimedOut, yield_env = []\<rparr>,
       \<lparr>wait_env = [AddLog ''A'', AddLog ''B''], outcome = Ready, yield_env = []\<rparr>,
       \<lparr>wait_env = [], outcome = Ready, yield_env = []\<rparr>,
       \<lparr>wait_env = [Tick 5, Stop], outcome = TimedOut, yield_env = []\<rparr>]" 0 Ingestor
      "\<lparr>wait_env = [], outcome = TimedOut, yield_env = []\<rparr>" "start 0 (Ingestor :: string ingestor)"]
  by (simp add: eval_defs)

section \<open>Drain on stop\<close>

text \<open>
  C4: the buffer holds records, the queue is empty and nothing more is put. If the stop
  was requested before the loop test, or is requested during the wait (which then ends
  without a record, by the timeout or by a caught exception), the generator terminates and has yielded exactly one batch, the
  buffer.
\<close>

theorem drain_on_stop:
  assumes "queue s = []" "batch s \<noteq> []"
    and "puts (wait_env e) = []" "puts (yield_env e) = []"
    and "outcome e = TimedOut \<or> outcome e = Faulted"
    and "\<not> is_running s \<or> Stop \<in> set (wait_env e)"
  shows "fst (run_from (e # es) s) = Terminated \<and> batches (run_from (e # es) s) = [batch s]"
proof -
  from while_loop_stop_buffered [OF assms(1,2,6,3,4,5), of es]
  obtain ems s' where "while_loop (e # es) s = (Terminated, ems, s')"
    and "map items (ems @ flush_remaining s') = [batch s]" by auto
  then show ?thesis by (simp add: run_from_def batches_def emissions_def)
qed

theorem drain_on_stop_witness:
  "queue \<lparr>queue = [], is_running = True, BATCH_SIZE_LIMIT = 100, BATCH_TIME_LIMIT = 5,
      batch = [''A'', ''B''], last_flush_time = 0, clock = 1, arrived = [''A'', ''B'']\<rparr> = [] \<and>
   puts (wait_env \<lparr>wait_env = [Stop, Tick 4 :: string env_action], outcome = TimedOut, yield_env = []\<rparr>) = [] \<and>
   outcome \<lparr>wait_env = [Stop, Tick 4 :: string env_action], outcome = TimedOut, yield_env = []\<rparr> = TimedOut \<and>
   Stop \<in> set (wait_env \<lparr>wait_env = [Stop, Tick 4 :: string env_action], outcome = TimedOut, yield_env = []\<rparr>) \<and>
   fst (run_from [\<lparr>wait_env = [Stop, Tick 4], outcome = TimedOut, yield_env = []\<rparr>]
     \<lparr>queue = [], is_running = True, BATCH_SIZE_LIMIT = 100, BATCH_TIME_LIMIT = 5,
      batch = [''A'', ''B''], last_flush_time = 0, clock = 1, arrived = [''A'', ''B'']\<rparr>) = Terminated \<and>
   batches (run_from [\<lparr>wait_env = [Stop, Tick 4], outcome = TimedOut, yield_env = []\<rparr>]
     \<lparr>queue = [], is_running = True, BATCH_SIZE_LIMIT = 100, BATCH_TIME_LIMIT = 5,
      batch = [''A'', ''B''], last_flush_time = 0, clock = 1, arrived = [''A'', ''B'']\<rparr>)
     = [[''A'', ''B'']]"
  using drain_on_stop [of
     "\<lparr>queue = [], is_running = True, BATCH_SIZE_LIMIT = 100, BATCH_TIME_LIMIT = 5,
      batch = [''A'', ''B''], last_flush_time = 0, clock = 1, arrived = [''A'', ''B'']\<rparr>"
     "\<lparr>wait_env = [Stop, Tick 4], outcome = TimedOut, yield_env = []\<rparr>" "[]"]
  by simp

section \<open>A fault in the queue read\<close>




section \<open>Order preservation\<close>

lemma concat_take_mono:
  "a \<le> b \<Longrightarrow> length (concat (take a bs)) \<le> length (concat (take b bs))"
proof -
  assume "a \<le> b"
  then have "take b bs = take a bs @ take (b - a) (drop a bs)"
    by (metis le_add_diff_inverse take_add)
  then show ?thesis by simp
qed

lemma concat_take_Suc:
  "j < length bs \<Longrightarrow> length (concat (take (Suc j) bs)) = length (concat (take j bs)) + length (bs ! j)"
  by (simp add: take_Suc_conv_app_nth)

lemma nth_concat_position:
  assumes "j < length bs" "k < length (bs ! j)"
  shows "length (concat (take j bs)) + k < length (concat bs) \<and>
         concat bs ! (length (concat (take j bs)) + k) = bs ! j ! k"
proof -
  from assms(1) have "bs = take j bs @ bs ! j # drop (Suc j) bs"
    by (simp add: id_take_nth_drop)
  then have "concat bs = concat (take j bs) @ bs ! j @ concat (drop (Suc j) bs)"
    by (metis concat.simps(2) concat_append)
  with assms(2) show ?thesis by (simp add: nth_append)
qed

lemma position_mono:
  assumes "j < j'" "j' \<le> length bs" "k < length (bs ! j)"
  shows "length (concat (take j bs)) + k < length (concat (take j' bs)) + k'"
proof -
  from assms have "length (concat (take (Suc j) bs)) \<le> length (concat (take j' bs))"
    by (intro concat_take_mono) simp
  with assms concat_take_Suc [of j bs] show ?thesis by simp
qed

lemma prefix_order:
  assumes pre: "arr = concat bs @ rest" and d: "distinct arr"
    and i: "i < i'" "i' < length arr"
    and p: "j < length bs" "k < length (bs ! j)" "bs ! j ! k = arr ! i"
    and p': "j' < length bs" "k' < length (bs ! j')" "bs ! j' ! k' = arr ! i'"
  shows "j < j' \<or> (j = j' \<and> k < k')"
proof -
  let ?p = "length (concat (take j bs)) + k"
  let ?p' = "length (concat (take j' bs)) + k'"
  from nth_concat_position [OF p(1,2)] have a: "?p < length (concat bs)" "concat bs ! ?p = arr ! i"
    using p(3) by simp_all
  from nth_concat_position [OF p'(1,2)] have a': "?p' < length (concat bs)" "concat bs ! ?p' = arr ! i'"
    using p'(3) by simp_all
  from a pre have "arr ! ?p = arr ! i" "?p < length arr" by (simp_all add: nth_append)
  with d i have e: "?p = i" by (simp add: nth_eq_iff_index_eq)
  from a' pre have "arr ! ?p' = arr ! i'" "?p' < length arr" by (simp_all add: nth_append)
  with d i have e': "?p' = i'" by (simp add: nth_eq_iff_index_eq)
  from e e' i(1) have lt: "?p < ?p'" by simp
  show ?thesis
  proof (rule ccontr)
    assume "\<not> (j < j' \<or> (j = j' \<and> k < k'))"
    then consider "j' < j" | "j = j'" "k' \<le> k" by linarith
    then show False
    proof cases
      case 1
      from position_mono [OF 1 _ p'(2), of k] p(1) have "?p' < ?p" by simp
      with lt show False by simp
    next
      case 2
      with lt show False by simp
    qed
  qed
qed

text \<open>
  C6: the emitted batches, one after the other, are a prefix of the records in the order
  they were put on the queue. So, when records can be told apart, a record put before
  another one and emitted like it is in an earlier batch, or in the same batch at an
  earlier position.
\<close>

theorem order_preserved:
  "(\<exists>rest. arrived (final (process_stream es now self))
       = concat (batches (process_stream es now self)) @ rest) \<and>
   (distinct (arrived (final (process_stream es now self))) \<longrightarrow>
    (\<forall>i i' j j' k k'.
       i < i' \<and> i' < length (arrived (final (process_stream es now self))) \<and>
       j < length (batches (process_stream es now self)) \<and>
       k < length (batches (process_stream es now self) ! j) \<and>
       batches (process_stream es now self) ! j ! k = arrived (final (process_stream es now self)) ! i \<and>
       j' < length (batches (process_stream es now self)) \<and>
       k' < length (batches (process_stream es now self) ! j') \<and>
       batches (process_stream es now self) ! j' ! k' = arrived (final (process_stream es now self)) ! i'
       \<longrightarrow> j < j' \<or> (j = j' \<and> k < k')))"
proof -
  obtain r ems s' where run: "process_stream es now self = (r, ems, s')"
    by (cases "process_stream es now self") auto
  from process_stream_fifo [OF run]
  have "\<exists>rest. arrived s' = concat (map items ems) @ rest"
    by (cases "r = Terminated") (simp_all, metis)
  then obtain rest where pre: "arrived s' = concat (map items ems) @ rest" ..
  have b: "batches (process_stream es now self) = map items ems"
    and f: "final (process_stream es now self) = s'"
    using run by (simp_all add: batches_def emissions_def final_def)
  show ?thesis
    unfolding b f using pre prefix_order [OF pre] by blast
qed

theorem order_preserved_witness:
  "arrived (final (process_stream
      [\<lparr>wait_env = [AddLog ''A'', AddLog ''B'', AddLog ''C''], outcome = Ready, yield_env = []\<rparr>,
       \<lparr>wait_env = [], outcome = Ready, yield_env = [Stop]\<rparr>,
       \<lparr>wait_env = [], outcome = Ready, yield_env = []\<rparr>] 0
      (Ingestor\<lparr>BATCH_SIZE_LIMIT := 2\<rparr>))) = [''A'', ''B'', ''C''] \<and>
   batches (process_stream
      [\<lparr>wait_env = [AddLog ''A'', AddLog ''B'', AddLog ''C''], outcome = Ready, yield_env = []\<rparr>,
       \<lparr>wait_env = [], outcome = Ready, yield_env = [Stop]\<rparr>,
       \<lparr>wait_env = [], outcome = Ready, yield_env = []\<rparr>] 0
      (Ingestor\<lparr>BATCH_SIZE_LIMIT := 2\<rparr>)) = [[''A'', ''B''], [''C'']] \<and>
   distinct [''A'', ''B'', ''C''] \<and>
   [[''A'', ''B''], [''C'']] ! 0 ! 1 = [''A'', ''B'', ''C''] ! 1 \<and>
   [[''A'', ''B''], [''C'']] ! 1 ! 0 = [''A'', ''B'', ''C''] ! 2 \<and>
   (0 :: nat) < 1"
  using order_preserved [of
      "[\<lparr>wait_env = [AddLog ''A'', AddLog ''B'', AddLog ''C''], outcome = Ready, yield_env = []\<rparr>,
       \<lparr>wait_env = [], outcome = Ready, yield_env = [Stop]\<rparr>,
       \<lparr>wait_env = [], outcome = Ready, yield_env = []\<rparr>]" 0
      "(Ingestor :: string ingestor)\<lparr>BATCH_SIZE_LIMIT := 2\<rparr>"]
  by (simp add: eval_defs final_def)

section \<open>The buffer stays below the size limit\<close>

text \<open>
  C7: with a size limit of at least one, the buffer carried from one iteration to the
  next (the last frame of every run, whatever the length of the schedule) is strictly
  shorter than \<open>BATCH_SIZE_LIMIT\<close>, every emitted batch has at most
  \<open>BATCH_SIZE_LIMIT\<close> records, and the limit is reached only at the instant the size
  trigger is evaluated after an append: exactly the size-triggered batches have
  \<open>BATCH_SIZE_LIMIT\<close> records.
\<close>

theorem buffer_bounded:
  assumes "0 < BATCH_SIZE_LIMIT self"
  shows "length (batch (final (process_stream es now self))) < BATCH_SIZE_LIMIT self \<and>
    (\<forall>em\<in>set (emissions (process_stream es now self)).
        length (items em) \<le> BATCH_SIZE_LIMIT self \<and>
        (length (items em) = BATCH_SIZE_LIMIT self \<longleftrightarrow> trigger em = SizeTrigger))"
proof -
  obtain r ems s' where run: "process_stream es now self = (r, ems, s')"
    by (cases "process_stream es now self") auto
  then obtain ems0 where w: "while_loop es (start now self) = (r, ems0, s')"
    and e: "ems = ems0 @ (if r = Terminated then flush_remaining s' else [])"
    unfolding process_stream_def by (rule run_from_split)
  have "0 < BATCH_SIZE_LIMIT (start now self)"
    "length (batch (start now self)) < BATCH_SIZE_LIMIT (start now self)"
    using assms by (simp_all add: start_def)
  from while_loop_bounded [OF w this]
  have "length (batch s') < BATCH_SIZE_LIMIT self"
    "\<forall>em\<in>set ems0. length (items em) \<le> BATCH_SIZE_LIMIT self \<and>
        (length (items em) = BATCH_SIZE_LIMIT self \<longleftrightarrow> trigger em = SizeTrigger)"
    by (simp_all add: start_def)
  with e run show ?thesis
    by (auto simp: flush_remaining_def emit_def emissions_def final_def split: if_splits)
qed

theorem buffer_bounded_witness:
  "0 < BATCH_SIZE_LIMIT ((Ingestor :: string ingestor)\<lparr>BATCH_SIZE_LIMIT := 2\<rparr>) \<and>
   emissions (process_stream
      [\<lparr>wait_env = [AddLog ''A'', AddLog ''B'', AddLog ''C''], outcome = Ready, yield_env = []\<rparr>,
       \<lparr>wait_env = [], outcome = Ready, yield_env = [Stop]\<rparr>,
       \<lparr>wait_env = [], outcome = Ready, yield_env = []\<rparr>] 0
      (Ingestor\<lparr>BATCH_SIZE_LIMIT := 2\<rparr>))
     = [\<lparr>trigger = SizeTrigger, items = [''A'', ''B''], elapsed = 0\<rparr>,
        \<lparr>trigger = DrainTrigger, items = [''C''], elapsed = 0\<rparr>] \<and>
   length (batch (final (process_stream
      [\<lparr>wait_env = [AddLog ''A'', AddLog ''B'', AddLog ''C''], outcome = Ready, yield_env = []\<rparr>,
       \<lparr>wait_env = [], outcome = Ready, yield_env = [Stop]\<rparr>,
       \<lparr>wait_env = [], outcome = Ready, yield_env = []\<rparr>] 0
      (Ingestor\<lparr>BATCH_SIZE_LIMIT := 2\<rparr>)))) < 2"
  using buffer_bounded [of "(Ingestor :: string ingestor)\<lparr>BATCH_SIZE_LIMIT := 2\<rparr>"
      "[\<lparr>wait_env = [AddLog ''A'', AddLog ''B'', AddLog ''C''], outcome = Ready, yield_env = []\<rparr>,
       \<lparr>wait_env = [], outcome = Ready, yield_env = [Stop]\<rparr>,
       \<lparr>wait_env = [], outcome = Ready, yield_env = []\<rparr>]" 0]
  by (simp add: eval_defs final_def)

section \<open>Stop is idempotent and discards nothing\<close>

lemma puts_replicate_Stop [simp]: "puts (replicate k Stop @ acts) = puts acts"
  by (induction k) simp_all

lemma duration_replicate_Stop [simp]: "duration (replicate k Stop @ acts) = duration acts"
  by (induction k) simp_all

lemma restop_measures [simp]:
  "puts (restop n acts) = puts acts" "duration (restop n acts) = duration acts"
  "Stop \<in> set (restop n acts) \<longleftrightarrow> Stop \<in> set acts"
  by (induction n acts rule: restop.induct) auto

lemma suspended_restop [simp]: "suspended (restop n acts) s = suspended acts s"
  by (simp add: suspended_eq)

lemma flush_restop [simp]: "flush (restop n acts) s = flush acts s"
  by (simp add: flush_def)

lemma recheck_restop [simp]: "recheck (restop n acts) ems s = recheck acts ems s"
  by (simp add: recheck_def)

lemma loop_body_restop [simp]: "loop_body (restop_env n e) s = loop_body e s"
  by (simp add: loop_body_def restop_env_def Let_def split: wait_outcome.split list.split)

lemma while_loop_restop: "while_loop (map (restop_env n) es) s = while_loop es s"
  by (induction es arbitrary: s) (simp_all split: prod.split flow.split)

lemma loop_body_stopped:
  assumes "loop_body e s = (fl, ems, s')" "\<not> is_running s" "queue s = x # q"
    "outcome e = Ready" "puts (wait_env e) = []" "puts (yield_env e) = []"
  shows "\<not> is_running s' \<and> queue s' = q \<and> concat (map items ems) @ batch s' = batch s @ [x] \<and>
    fl = (if q = [] then Break else Continue)"
  using assms by (auto simp: body_defs suspended_eq split: if_splits)

lemma while_loop_stopped:
  assumes "\<not> is_running s" "length (queue s) \<le> length es"
    "\<forall>e\<in>set (take (length (queue s)) es).
        outcome e = Ready \<and> puts (wait_env e) = [] \<and> puts (yield_env e) = []"
  shows "\<exists>ems s'. while_loop es s = (Terminated, ems, s') \<and>
     concat (map items ems) @ batch s' = batch s @ queue s"
  using assms
proof (induction es arbitrary: s)
  case Nil
  then show ?case by simp
next
  case (Cons e es)
  show ?case
  proof (cases "queue s")
    case Nil
    with Cons.prems(1) show ?thesis by simp
  next
    case (Cons x q)
    with Cons.prems(3) have e: "outcome e = Ready" "puts (wait_env e) = []" "puts (yield_env e) = []"
      by simp_all
    obtain fl ems1 s1 where body: "loop_body e s = (fl, ems1, s1)"
      by (cases "loop_body e s") auto
    from loop_body_stopped [OF body Cons.prems(1) Cons e]
    have s1: "\<not> is_running s1" "queue s1 = q" "concat (map items ems1) @ batch s1 = batch s @ [x]"
      and fl: "fl = (if q = [] then Break else Continue)" by simp_all
    show ?thesis
    proof (cases "q = []")
      case True
      with body fl s1 Cons show ?thesis by simp
    next
      case False
      have "\<exists>ems s'. while_loop es s1 = (Terminated, ems, s') \<and>
          concat (map items ems) @ batch s' = batch s1 @ queue s1"
        using Cons.prems(2,3) Cons s1 by (intro Cons.IH) auto
      then obtain ems2 s2 where rest: "while_loop es s1 = (Terminated, ems2, s2)"
        and c: "concat (map items ems2) @ batch s2 = batch s1 @ queue s1" by blast
      from s1(3) c have "concat (map items (ems1 @ ems2)) @ batch s2 = batch s @ x # q"
        using s1(2) by (metis append.assoc append_Cons append_Nil concat_append map_append)
      with body fl False rest Cons show ?thesis by simp
    qed
  qed
qed

text \<open>
  C8: requesting the stop twice is requesting it once, and a run in which every stop
  request is repeated any number of times is the same run. A run that terminates has
  emitted every record put on the queue, in order. And once the stop is requested,
  the records still queued are not discarded: when each of them is delivered by a wait
  and nothing more is put, the generator terminates having emitted the buffer and all
  of them.
\<close>

theorem stop_idempotent_keeps_records:
  "stop (stop self) = stop self \<and>
   process_stream (map (restop_env n) es) now self = process_stream es now self \<and>
   (fst (process_stream es now self) = Terminated \<longrightarrow>
      concat (batches (process_stream es now self)) = arrived (final (process_stream es now self))) \<and>
   (\<not> is_running s \<and> length (queue s) \<le> length sch \<and>
    (\<forall>e\<in>set (take (length (queue s)) sch).
        outcome e = Ready \<and> puts (wait_env e) = [] \<and> puts (yield_env e) = []) \<longrightarrow>
      fst (run_from sch s) = Terminated \<and>
      concat (batches (run_from sch s)) = batch s @ queue s)"
proof (intro conjI impI)
  show "stop (stop self) = stop self" by (simp add: stop_def)
  show "process_stream (map (restop_env n) es) now self = process_stream es now self"
    by (simp add: process_stream_def run_from_def while_loop_restop)
next
  assume t: "fst (process_stream es now self) = Terminated"
  obtain r ems s' where run: "process_stream es now self = (r, ems, s')"
    by (cases "process_stream es now self") auto
  with t process_stream_fifo [OF run]
  show "concat (batches (process_stream es now self)) = arrived (final (process_stream es now self))"
    by (simp add: batches_def emissions_def final_def)
next
  assume a: "\<not> is_running s \<and> length (queue s) \<le> length sch \<and>
    (\<forall>e\<in>set (take (length (queue s)) sch).
        outcome e = Ready \<and> puts (wait_env e) = [] \<and> puts (yield_env e) = [])"
  then obtain ems s' where w: "while_loop sch s = (Terminated, ems, s')"
    and c: "concat (map items ems) @ batch s' = batch s @ queue s"
    using while_loop_stopped [of s sch] by blast
  from w show "fst (run_from sch s) = Terminated" by (simp add: run_from_def)
  from w c show "concat (batches (run_from sch s)) = batch s @ queue s"
    by (auto simp: run_from_def batches_def emissions_def flush_remaining_def emit_def)
qed

theorem stop_idempotent_keeps_records_witness:
  "process_stream (map (restop_env 2)
      [\<lparr>wait_env = [AddLog ''A'', AddLog ''B'', AddLog ''C'', Stop], outcome = Ready, yield_env = []\<rparr>,
       \<lparr>wait_env = [], outcome = Ready, yield_env = [Stop]\<rparr>,
       \<lparr>wait_env = [], outcome = Ready, yield_env = []\<rparr>]) 0
      (Ingestor\<lparr>BATCH_SIZE_LIMIT := 2\<rparr>)
    = process_stream
      [\<lparr>wait_env = [AddLog ''A'', AddLog ''B'', AddLog ''C'', Stop], outcome = Ready, yield_env = []\<rparr>,
       \<lparr>wait_env = [], outcome = Ready, yield_env = [Stop]\<rparr>,
       \<lparr>wait_env = [], outcome = Ready, yield_env = []\<rparr>] 0
      (Ingestor\<lparr>BATCH_SIZE_LIMIT := 2\<rparr>) \<and>
   fst (process_stream
      [\<lparr>wait_env = [AddLog ''A'', AddLog ''B'', AddLog ''C'', Stop], outcome = Ready, yield_env = []\<rparr>,
       \<lparr>wait_env = [], outcome = Ready, yield_env = [Stop]\<rparr>,
       \<lparr>wait_env = [], outcome = Ready, yield_env = []\<rparr>] 0
      (Ingestor\<lparr>BATCH_SIZE_LIMIT := 2\<rparr>)) = Terminated \<and>
   concat (batches (process_stream
      [\<lparr>wait_env = [AddLog ''A'', AddLog ''B'', AddLog ''C'', Stop], outcome = Ready, yield_env = []\<rparr>,
       \<lparr>wait_env = [], outcome = Ready, yield_env = [Stop]\<rparr>,
       \<lparr>wait_env = [], outcome = Ready, yield_env = []\<rparr>] 0
      (Ingestor\<lparr>BATCH_SIZE_LIMIT := 2\<rparr>))) = [''A'', ''B'', ''C''] \<and>
   \<not> is_running \<lparr>queue = [''B'', ''C''], is_running = False, BATCH_SIZE_LIMIT = 100,
      BATCH_TIME_LIMIT = 5, batch = [''A''], last_flush_time = 0, clock = 1,
      arrived = [''A'', ''B'', ''C'']\<rparr> \<and>
   outcome \<lparr>wait_env = [Tick 1 :: string env_action], outcome = Ready, yield_env = []\<rparr> = Ready \<and>
   puts (wait_env \<lparr>wait_env = [Tick 1 :: string env_action], outcome = Ready, yield_env = []\<rparr>) = [] \<and>
   fst (run_from
      [\<lparr>wait_env = [Tick 1], outcome = Ready, yield_env = []\<rparr>,
       \<lparr>wait_env = [Tick 1], outcome = Ready, yield_env = []\<rparr>]
      \<lparr>queue = [''B'', ''C''], is_running = False, BATCH_SIZE_LIMIT = 100,
      BATCH_TIME_LIMIT = 5, batch = [''A''], last_flush_time = 0, clock = 1,
      arrived = [''A'', ''B'', ''C'']\<rparr>) = Terminated \<and>
   concat (batches (run_from
      [\<lparr>wait_env = [Tick 1], outcome = Ready, yield_env = []\<rparr>,
       \<lparr>wait_env = [Tick 1], outcome = Ready, yield_env = []\<rparr>]
      \<lparr>queue = [''B'', ''C''], is_running = False, BATCH_SIZE_LIMIT = 100,
      BATCH_TIME_LIMIT = 5, batch = [''A''], last_flush_time = 0, clock = 1,
      arrived = [''A'', ''B'', ''C'']\<rparr>)) = [''A'', ''B'', ''C'']"
  using stop_idempotent_keeps_records [of "(Ingestor :: string ingestor)\<lparr>BATCH_SIZE_LIMIT := 2\<rparr>" 2
      "[\<lparr>wait_env = [AddLog ''A'', AddLog ''B'', AddLog ''C'', Stop], outcome = Ready, yield_env = []\<rparr>,
       \<lparr>wait_env = [], outcome = Ready, yield_env = [Stop]\<rparr>,
       \<lparr>wait_env = [], outcome = Ready, yield_env = []\<rparr>]" 0
      "\<lparr>queue = [''B'', ''C''], is_running = False, BATCH_SIZE_LIMIT = 100,
      BATCH_TIME_LIMIT = 5, batch = [''A''], last_flush_time = 0, clock = 1,
      arrived = [''A'', ''B'', ''C'']\<rparr>"
      "[\<lparr>wait_env = [Tick 1], outcome = Ready, yield_env = []\<rparr>,
       \<lparr>wait_env = [Tick 1], outcome = Ready, yield_env = []\<rparr>]"]
  by (simp add: eval_defs final_def restop_env_def)

section \<open>Starting the stream re-arms the flag\<close>

lemma loop_body_keeps_running:
  assumes "loop_body e s = (fl, ems, s')" "is_running s"
    "Stop \<notin> set (wait_env e)" "Stop \<notin> set (yield_env e)"
  shows "is_running s' \<and> fl \<noteq> Break"
  using assms
  by (auto simp: body_defs suspended_eq split: wait_outcome.splits list.splits if_splits)

lemma while_loop_keeps_running:
  "is_running s \<Longrightarrow> \<forall>e\<in>set es. Stop \<notin> set (wait_env e) \<and> Stop \<notin> set (yield_env e)
    \<Longrightarrow> fst (while_loop es s) \<noteq> Terminated"
proof (induction es arbitrary: s)
  case Nil
  then show ?case by simp
next
  case (Cons e es)
  obtain fl ems s1 where body: "loop_body e s = (fl, ems, s1)"
    by (cases "loop_body e s") auto
  with Cons.prems have k: "is_running s1" "fl \<noteq> Break"
    using loop_body_keeps_running [OF body] by auto
  from Cons.IH [OF k(1)] Cons.prems(2) have "fst (while_loop es s1) \<noteq> Terminated" by simp
  with body k Cons.prems(1) show ?case
    by (cases fl) (auto split: prod.splits)
qed

text \<open>
  C9: the first statement of \<open>process_stream\<close> sets \<open>is_running\<close>, so a stop requested
  before the generator starts is overwritten (the run is the same as without it), and
  the generator does not terminate unless a stop is requested again while it runs.
\<close>

theorem start_rearms:
  "is_running (start now self) \<and>
   process_stream es now (stop self) = process_stream es now self \<and>
   ((\<forall>e\<in>set es. Stop \<notin> set (wait_env e) \<and> Stop \<notin> set (yield_env e))
      \<longrightarrow> fst (process_stream es now self) \<noteq> Terminated)"
proof -
  have a: "start now (stop self) = start now self"
    by (simp add: start_def stop_def)
  have b: "fst (process_stream es now self) \<noteq> Terminated"
    if "\<forall>e\<in>set es. Stop \<notin> set (wait_env e) \<and> Stop \<notin> set (yield_env e)"
  proof -
    have "is_running (start now self)" by (simp add: start_def)
    from while_loop_keeps_running [OF this that]
    show ?thesis
      by (auto simp: process_stream_def run_from_def split: prod.splits status.splits)
  qed
  show ?thesis using a b by (simp add: process_stream_def) (simp add: start_def)
qed

theorem start_rearms_witness:
  "Stop \<notin> set (wait_env \<lparr>wait_env = [AddLog ''A''], outcome = Ready, yield_env = []\<rparr>) \<and>
   Stop \<notin> set (yield_env \<lparr>wait_env = [AddLog ''A''], outcome = Ready, yield_env = []\<rparr>) \<and>
   process_stream [\<lparr>wait_env = [AddLog ''A''], outcome = Ready, yield_env = []\<rparr>] 0 (stop Ingestor)
     = process_stream [\<lparr>wait_env = [AddLog ''A''], outcome = Ready, yield_env = []\<rparr>] 0 Ingestor \<and>
   fst (process_stream [\<lparr>wait_env = [AddLog ''A''], outcome = Ready, yield_env = []\<rparr>] 0 (stop Ingestor))
     = Pending \<and>
   fst (process_stream [\<lparr>wait_env = [AddLog ''A'', Stop], outcome = Ready, yield_env = []\<rparr>] 0 (stop Ingestor))
     = Terminated"
  using start_rearms [of 0 Ingestor "[\<lparr>wait_env = [AddLog ''A''], outcome = Ready, yield_env = []\<rparr>]"]
  by (simp add: eval_defs)

section \<open>The first record after an idle window\<close>

text \<open>
  C10: a wait that times out on an empty buffer yields nothing and leaves
  \<open>last_flush_time\<close> as it is. So when the first record is taken from the queue at
  least \<open>BATCH_TIME_LIMIT\<close> after the last flush, it is emitted in the same iteration,
  alone; with a size limit above one it is the time re-check after the append that
  emits it.
\<close>

theorem idle_window_first_record:
  assumes "batch s = []"
  shows "(outcome e = TimedOut \<longrightarrow>
            fst (snd (loop_body e s)) = [] \<and>
            last_flush_time (snd (snd (loop_body e s))) = last_flush_time s) \<and>
         (outcome e = Ready \<and> queue (suspended (wait_env e) s) = x # rest \<and>
          BATCH_TIME_LIMIT s \<le> clock (suspended (wait_env e) s) - last_flush_time s \<longrightarrow>
            map items (fst (snd (loop_body e s))) = [[x]] \<and>
            (1 < BATCH_SIZE_LIMIT s \<longrightarrow>
               map trigger (fst (snd (loop_body e s))) = [RecheckTrigger]))"
  using assms by (auto simp: body_defs suspended_eq)

theorem idle_window_first_record_witness:
  "batch ((start 0 (Ingestor :: string ingestor))\<lparr>clock := 5\<rparr>) = [] \<and>
   outcome \<lparr>wait_env = [Tick 1 :: string env_action], outcome = TimedOut, yield_env = []\<rparr> = TimedOut \<and>
   fst (snd (loop_body \<lparr>wait_env = [Tick 1], outcome = TimedOut, yield_env = []\<rparr>
      ((start 0 (Ingestor :: string ingestor))\<lparr>clock := 5\<rparr>))) = [] \<and>
   last_flush_time (snd (snd (loop_body \<lparr>wait_env = [Tick 1], outcome = TimedOut, yield_env = []\<rparr>
      ((start 0 (Ingestor :: string ingestor))\<lparr>clock := 5\<rparr>)))) = 0 \<and>
   outcome \<lparr>wait_env = [Tick (1/2), AddLog ''A''], outcome = Ready, yield_env = []\<rparr> = Ready \<and>
   queue (suspended (wait_env \<lparr>wait_env = [Tick (1/2), AddLog ''A''], outcome = Ready, yield_env = []\<rparr>)
      ((start 0 (Ingestor :: string ingestor))\<lparr>clock := 5\<rparr>)) = ''A'' # [] \<and>
   BATCH_TIME_LIMIT ((start 0 (Ingestor :: string ingestor))\<lparr>clock := 5\<rparr>)
     \<le> clock (suspended (wait_env \<lparr>wait_env = [Tick (1/2), AddLog ''A''], outcome = Ready, yield_env = []\<rparr>)
      ((start 0 (Ingestor :: string ingestor))\<lparr>clock := 5\<rparr>))
       - last_flush_time ((start 0 (Ingestor :: string ingestor))\<lparr>clock := 5\<rparr>) \<and>
   1 < BATCH_SIZE_LIMIT ((start 0 (Ingestor :: string ingestor))\<lparr>clock := 5\<rparr>) \<and>
   fst (snd (loop_body \<lparr>wait_env = [Tick (1/2), AddLog ''A''], outcome = Ready, yield_env = []\<rparr>
      ((start 0 (Ingestor :: string ingestor))\<lparr>clock := 5\<rparr>)))
     = [\<lparr>trigger = RecheckTrigger, items = [''A''], elapsed = 11/2\<rparr>]"
  using idle_window_first_record [where s = "(start 0 (Ingestor :: string ingestor))\<lparr>clock := 5\<rparr>"
      and e = "\<lparr>wait_env = [Tick 1], outcome = TimedOut, yield_env = []\<rparr>"]
    idle_window_first_record [where s = "(start 0 (Ingestor :: string ingestor))\<lparr>clock := 5\<rparr>"
      and e = "\<lparr>wait_env = [Tick (1/2), AddLog ''A''], outcome = Ready, yield_env = []\<rparr>"
      and x = "''A''" and rest = "[]"]
  by (simp add: eval_defs)

end
